theory Spec2Isabelle
  imports
    Complex_Main
    "HOL-Library.Sublist"
    "HOL-Library.Char_ord"
    "HOL-Library.List_Lexorder"
begin

section \<open>Helpers of source-map-explorer (src/lib/helpers.ts)\<close>

text \<open>
  JavaScript numbers that hold byte offsets and array indices are modelled as \<open>int\<close> and
  \<open>nat\<close>; strings are \<open>string\<close>, a list of characters, ordered character by character as
  JavaScript orders code units. An uncaught exception is a value \<open>Inl e\<close> of a sum type.
\<close>

datatype error = TypeError | RangeError

subsection \<open>mergeRanges\<close>

text \<open>
  Modelled from the spec: the type \<open>MappingRange\<close> is imported from \<open>./types\<close>, which is
  not among the sources; the spec gives a Range as \<open>{ start, end, source }\<close> with an
  inclusive \<open>end\<close>. The field \<open>end\<close> is written \<open>end'\<close>.
\<close>

record MappingRange =
  start :: int
  end' :: int
  source :: string

text \<open>
  The \<open>for\<close> loop of \<open>mergeRanges\<close>. The variables \<open>start\<close>, \<open>end\<close>, \<open>source\<close> of the
  source are the three fields of \<open>acc\<close>. The loop starts at \<open>i = 1\<close>, so \<open>i - 1\<close> is an index.
\<close>

function mergeRanges_loop ::
  "MappingRange list \<Rightarrow> nat \<Rightarrow> MappingRange \<Rightarrow> MappingRange list \<Rightarrow> MappingRange list" where
  "mergeRanges_loop ranges i acc mergedRanges =
     (if i < length ranges then
        (let isSourceMatch = (source (ranges ! i) = source (ranges ! (i - 1)));
             isConsecutive = (start (ranges ! i) - end' (ranges ! (i - 1)) = 1)
         in if isSourceMatch \<and> isConsecutive
            then mergeRanges_loop ranges (i + 1) (acc\<lparr>end' := end' (ranges ! i)\<rparr>) mergedRanges
            else mergeRanges_loop ranges (i + 1) (ranges ! i) (mergedRanges @ [acc]))
      else mergedRanges @ [acc])"
  by pat_completeness auto
termination
  by (relation "measure (\<lambda>(ranges, i, acc, mergedRanges). length ranges - i)") auto

declare mergeRanges_loop.simps [simp del]

text \<open>
  \<open>mergeRanges\<close>: a list of one range is returned as it is; on the empty list
  \<open>ranges[0]\<close> is \<open>undefined\<close> and destructuring it throws a \<open>TypeError\<close>.
\<close>

definition mergeRanges :: "MappingRange list \<Rightarrow> error + MappingRange list" where
  "mergeRanges ranges =
     (if length ranges = 1 then Inr ranges
      else (case ranges of
              [] \<Rightarrow> Inl TypeError
            | r0 # _ \<Rightarrow> Inr (mergeRanges_loop ranges 1 r0 [])))"

text \<open>The loop as a recursion over the ranges not yet visited; \<open>prev\<close> is \<open>ranges[i - 1]\<close>.\<close>

fun merge_from :: "MappingRange \<Rightarrow> MappingRange \<Rightarrow> MappingRange list \<Rightarrow> MappingRange list" where
  "merge_from acc prev [] = [acc]"
| "merge_from acc prev (r # rs) =
     (if source r = source prev \<and> start r - end' prev = 1
      then merge_from (acc\<lparr>end' := end' r\<rparr>) r rs
      else acc # merge_from r r rs)"

text \<open>Consecutive ranges are contiguous: each starts right after the one before ends.\<close>

fun contiguous :: "MappingRange list \<Rightarrow> bool" where
  "contiguous [] = True"
| "contiguous [r] = True"
| "contiguous (r # r' # rs) = (start r' = end' r + 1 \<and> contiguous (r' # rs))"

text \<open>The bytes of a range (its end is inclusive) and of a range list.\<close>

definition bytes_of :: "MappingRange \<Rightarrow> int set" where
  "bytes_of r = {start r .. end' r}"

definition covered :: "MappingRange list \<Rightarrow> int set" where
  "covered rs = (\<Union>r \<in> set rs. bytes_of r)"

text \<open>No two ranges of the list share a byte, and the list is in increasing order.\<close>

definition non_overlapping :: "MappingRange list \<Rightarrow> bool" where
  "non_overlapping rs = (\<forall>i j. i < j \<and> j < length rs \<longrightarrow> end' (rs ! i) < start (rs ! j))"

text \<open>No two consecutive ranges of the list would be merged by the loop.\<close>

fun merged_form :: "MappingRange list \<Rightarrow> bool" where
  "merged_form [] = True"
| "merged_form [r] = True"
| "merged_form (r # r' # rs) =
     (\<not> (source r' = source r \<and> start r' - end' r = 1) \<and> merged_form (r' # rs))"

subsection \<open>getOccurrencesCount\<close>

text \<open>
  \<open>String.prototype.indexOf(searchString, position)\<close>: the search starts at \<open>position\<close>
  clamped to \<open>[0, length]\<close> and returns the first index at which \<open>searchString\<close> occurs,
  or \<open>-1\<close>. The empty \<open>searchString\<close> occurs at every index, the end included.
  In \<open>indexOf_from\<close> the first argument is the rest of the string from index \<open>k\<close> on.
\<close>

fun indexOf_from :: "string \<Rightarrow> string \<Rightarrow> nat \<Rightarrow> int" where
  "indexOf_from [] searchString k = (if searchString = [] then int k else - 1)"
| "indexOf_from (c # cs) searchString k =
     (if prefix searchString (c # cs) then int k else indexOf_from cs searchString (k + 1))"

definition indexOf :: "string \<Rightarrow> string \<Rightarrow> int \<Rightarrow> int" where
  "indexOf s searchString position =
     (let k = nat (min (max position 0) (int (length s)))
      in indexOf_from (drop k s) searchString k)"

text \<open>
  The \<open>while\<close> loop of \<open>getOccurrencesCount\<close>. Nothing bounds its number of rounds, so
  it is a partial function: \<open>None\<close> is a loop that never ends.
\<close>

partial_function (option) getOccurrencesCount_loop ::
  "string \<Rightarrow> string \<Rightarrow> nat \<Rightarrow> int \<Rightarrow> nat option" where
  "getOccurrencesCount_loop subString string count position =
     (if position \<noteq> - 1
      then getOccurrencesCount_loop subString string (count + 1)
             (indexOf string subString (position + int (length subString)))
      else Some count)"

definition getOccurrencesCount :: "string \<Rightarrow> string \<Rightarrow> nat option" where
  "getOccurrencesCount subString string =
     getOccurrencesCount_loop subString string 0 (indexOf string subString 0)"

subsection \<open>splitLinesByEOL\<close>

text \<open>
  \<open>String.prototype.split(separator)\<close> for a string separator: the string is cut at each
  occurrence of the separator, found from left to right; the empty string gives one
  empty piece, and the empty separator cuts the string into its characters.
\<close>

function string_split :: "string \<Rightarrow> string \<Rightarrow> string list" where
  "string_split s separator =
     (if separator = [] then map (\<lambda>c. [c]) s
      else if s = [] then [[]]
      else if prefix separator s then [] # string_split (drop (length separator) s) separator
      else (case string_split (tl s) separator of
              [] \<Rightarrow> [[hd s]]
            | t # ts \<Rightarrow> (hd s # t) # ts))"
  by pat_completeness auto
termination
  by (relation "measure (\<lambda>(s, separator). length s)") auto

declare string_split.simps [simp del]

definition LF :: string where
  "LF = [CHR 0x0A]"

definition CR_LF :: string where
  "CR_LF = [CHR 0x0D, CHR 0x0A]"

record SplitLine =
  line :: string
  eol :: string

text \<open>
  \<open>reduce\<close> is a left fold over the pieces \<open>e\<close> with their indices \<open>i\<close>; \<open>len\<close> is the
  \<open>length\<close> of the array of pieces, \<open>orig\<close> the array that \<open>map\<close> runs over.
\<close>

definition splitLinesByEOL :: "string \<Rightarrow> SplitLine list" where
  "splitLinesByEOL content =
     (let pieces = string_split content CR_LF; len = length pieces
      in foldl (\<lambda>arr (i, e).
           arr @ (let orig = string_split e LF
                  in map (\<lambda>(j, line).
                       \<lparr>line = line,
                        eol = (if int j < int (length orig) - 1 \<or> int i = int len - 1
                               then LF else CR_LF)\<rparr>)
                     (enumerate 0 orig)))
         [] (enumerate 0 pieces))"

text \<open>
  Joining the entries back: each line followed by its terminator, the terminator of the
  last entry left out.
\<close>

fun rejoin :: "SplitLine list \<Rightarrow> string" where
  "rejoin [] = []"
| "rejoin [e] = line e"
| "rejoin (e # es) = line e @ eol e @ rejoin es"

text \<open>\<open>Array.prototype.join(separator)\<close> on strings.\<close>

fun join :: "string \<Rightarrow> string list \<Rightarrow> string" where
  "join separator [] = []"
| "join separator [x] = x"
| "join separator (x # xs) = x @ separator @ join separator xs"

text \<open>
  The entries that one piece \<open>e\<close> of the outer split contributes: its lines but the last
  are terminated by \<open>LF\<close>, and \<open>final\<close> says that \<open>e\<close> is the last piece.
\<close>

definition piece_entries :: "bool \<Rightarrow> string \<Rightarrow> SplitLine list" where
  "piece_entries final e =
     map (\<lambda>l. \<lparr>line = l, eol = LF\<rparr>) (butlast (string_split e LF))
     @ [\<lparr>line = last (string_split e LF), eol = (if final then LF else CR_LF)\<rparr>]"

subsection \<open>getCommonPathPrefix\<close>

text \<open>
  \<open>string.split(PATH_SEPARATOR_REGEX)\<close> with \<open>PATH_SEPARATOR_REGEX = /(\/)/\<close>: the string
  is cut at each \<open>/\<close>, and as the regular expression captures the separator, each \<open>/\<close>
  is a piece of its own between the pieces around it.
\<close>

definition PATH_SEPARATOR :: char where
  "PATH_SEPARATOR = CHR ''/''"

fun split_PATH_SEPARATOR_REGEX :: "string \<Rightarrow> string list" where
  "split_PATH_SEPARATOR_REGEX [] = [[]]"
| "split_PATH_SEPARATOR_REGEX (c # cs) =
     (if c = PATH_SEPARATOR then [] # [PATH_SEPARATOR] # split_PATH_SEPARATOR_REGEX cs
      else (case split_PATH_SEPARATOR_REGEX cs of
              [] \<Rightarrow> [[c]]
            | t # ts \<Rightarrow> (c # t) # ts))"

text \<open>
  Reading an array at an index: \<open>undefined\<close>, here \<open>None\<close>, beyond its end.
\<close>

definition at_index :: "'a list \<Rightarrow> nat \<Rightarrow> 'a option" where
  "at_index xs i = (if i < length xs then Some (xs ! i) else None)"

text \<open>The loop \<open>while (i < L && a1[i] === a2[i]) i++\<close>, returning the final \<open>i\<close>.\<close>

function getCommonPathPrefix_loop :: "string list \<Rightarrow> string list \<Rightarrow> nat \<Rightarrow> nat \<Rightarrow> nat" where
  "getCommonPathPrefix_loop a1 a2 L i =
     (if i < L \<and> at_index a1 i = at_index a2 i
      then getCommonPathPrefix_loop a1 a2 L (i + 1)
      else i)"
  by pat_completeness auto
termination
  by (relation "measure (\<lambda>(a1, a2, L, i). L - i)") auto

declare getCommonPathPrefix_loop.simps [simp del]

text \<open>
  \<open>getCommonPathPrefix\<close>. \<open>paths.concat().sort()\<close> is the sorted copy \<open>A\<close>: the default
  order of \<open>sort\<close> compares strings code unit by code unit, which is the lexicographic
  order of \<open>string\<close>. With at least two paths \<open>A[0]\<close> and \<open>A[A.length - 1]\<close> exist.
  \<open>a1.slice(0, i).join('''')\<close> is \<open>concat (take i a1)\<close>.
\<close>

definition getCommonPathPrefix :: "string list \<Rightarrow> string" where
  "getCommonPathPrefix paths =
     (if length paths < 2 then ''''
      else
        (let A = sort paths;
             a1 = split_PATH_SEPARATOR_REGEX (A ! 0);
             a2 = split_PATH_SEPARATOR_REGEX (A ! (length A - 1));
             L = length a1;
             i = getCommonPathPrefix_loop a1 a2 L 0
         in concat (take i a1)))"

text \<open>
  In the spec's words a common prefix is aligned to path-separator boundaries: a prefix
  \<open>q\<close> of a path \<open>p\<close> is aligned when it ends where a piece of \<open>p\<close> ends, that is, when
  it is the concatenation of some leading pieces of \<open>p\<close>.
\<close>

definition separator_aligned_prefix :: "string \<Rightarrow> string \<Rightarrow> bool" where
  "separator_aligned_prefix q p =
     (q \<in> set (map (\<lambda>k. concat (take k (split_PATH_SEPARATOR_REGEX p)))
                 [0 ..< Suc (length (split_PATH_SEPARATOR_REGEX p))]))"

text \<open>
  The arrays that \<open>getCommonPathPrefix\<close> touches live in a store: an array is known by
  its address, an index of the store. \<open>paths.concat()\<close> allocates a new array with the
  elements of \<open>paths\<close>; \<open>A.sort()\<close> sorts the array \<open>A\<close> in place and returns it.
\<close>

type_synonym ref = nat

type_synonym store = "string list list"

definition array_concat :: "store \<Rightarrow> ref \<Rightarrow> ref \<times> store" where
  "array_concat h r = (length h, h @ [h ! r])"

definition array_sort :: "store \<Rightarrow> ref \<Rightarrow> ref \<times> store" where
  "array_sort h r = (r, h[r := sort (h ! r)])"

text \<open>
  \<open>getCommonPathPrefix\<close> on the store: \<open>paths\<close> is the address of the argument, and the
  store after the call is returned with the result.
\<close>

definition getCommonPathPrefix_store :: "store \<Rightarrow> ref \<Rightarrow> string \<times> store" where
  "getCommonPathPrefix_store h paths =
     (if length (h ! paths) < 2 then ('''', h)
      else
        (let (c, h1) = array_concat h paths;
             (A, h2) = array_sort h1 c;
             a1 = split_PATH_SEPARATOR_REGEX (h2 ! A ! 0);
             a2 = split_PATH_SEPARATOR_REGEX (h2 ! A ! (length (h2 ! A) - 1));
             L = length a1;
             i = getCommonPathPrefix_loop a1 a2 L 0
         in (concat (take i a1), h2)))"

subsection \<open>formatBytes\<close>

text \<open>
  A byte count is a natural number. The arithmetic of \<open>formatBytes\<close> is modelled on exact
  real numbers: \<open>Math.log\<close> is \<open>ln\<close>, \<open>Math.floor\<close> is the floor, \<open>Math.pow\<close> is \<open>powr\<close>,
  and the division is exact. The source computes in doubles. There the quotient by the
  power of 1024 is exact too for a byte count that is a double, and \<open>toFixed\<close> reads the
  exact value of the quotient; but \<open>Math.log\<close> and the division of the two logarithms
  are rounded, and the exponent of the source can be one more than the exponent here
  for a byte count so close below a power of 1024 that the rounding reaches the power
  (\<open>2^50 - 1\<close> is one). The model is the source where the two exponents agree, as they do
  for the byte counts evaluated in this theory (\<open>exponent_insensitive_to_rounding\<close>).
\<close>

definition BYTE_SIZES :: "string list" where
  "BYTE_SIZES = [''B'', ''KB'', ''MB'', ''GB'', ''TB'', ''PB'', ''EB'', ''ZB'', ''YB'']"

definition SIZE_BASE :: nat where
  "SIZE_BASE = 1024"

text \<open>Reading an array at a number: \<open>undefined\<close> outside of \<open>0 .. length - 1\<close>.\<close>

definition at_number :: "'a list \<Rightarrow> int \<Rightarrow> 'a option" where
  "at_number xs k = (if 0 \<le> k \<and> nat k < length xs then Some (xs ! nat k) else None)"

text \<open>An \<open>undefined\<close> in a template literal is printed as the word.\<close>

definition template_string :: "string option \<Rightarrow> string" where
  "template_string v = (case v of Some s \<Rightarrow> s | None \<Rightarrow> ''undefined'')"

text \<open>The decimal digits of a natural number.\<close>

fun digits_of :: "nat \<Rightarrow> string" where
  "digits_of n =
     (if n < 10 then [''0123456789'' ! n]
      else digits_of (n div 10) @ [''0123456789'' ! (n mod 10)])"

declare digits_of.simps [simp del]

text \<open>
  \<open>Number.prototype.toFixed(fractionDigits)\<close> for a number \<open>x \<ge> 0\<close> below \<open>10^21\<close> and at
  most 100 digits (more digits are a \<open>RangeError\<close>, raised in \<open>formatBytes\<close> below):
  \<open>n\<close> is the integer nearest to \<open>x * 10^fractionDigits\<close>, the larger one of two; its
  digits are padded with zeros to \<open>fractionDigits + 1\<close> digits, and the point is set
  before the last \<open>fractionDigits\<close> digits.
\<close>

definition toFixed :: "real \<Rightarrow> nat \<Rightarrow> string" where
  "toFixed x fractionDigits =
     (let n = nat \<lfloor>x * 10 ^ fractionDigits + 1 / 2\<rfloor>;
          m = digits_of n;
          m' = replicate (fractionDigits + 1 - length m) (CHR ''0'') @ m;
          k = length m' - fractionDigits
      in if fractionDigits = 0 then m' else take k m' @ ''.'' @ drop k m')"

text \<open>
  \<open>parseFloat\<close> of such a string, printed again by the template literal: the zeros at
  the end of the fraction are gone, and the point with them when nothing follows it.
  This is the source for a string of at most 15 significant digits, which a double
  holds and prints back as they are; with the default of 2 decimals the strings of
  \<open>formatBytes\<close> have at most 6. For a longer string the source prints the shortest
  digits that identify the double, which can be fewer than the digits of the string.
\<close>

definition parseFloat_string :: "string \<Rightarrow> string" where
  "parseFloat_string s =
     (if CHR ''.'' \<in> set s
      then (let t = rev (dropWhile (\<lambda>c. c = CHR ''0'') (rev s))
            in if last t = CHR ''.'' then butlast t else t)
      else s)"

definition formatBytes :: "nat \<Rightarrow> nat \<Rightarrow> error + string" where
  "formatBytes bytes decimals =
     (if bytes = 0 then Inr (''0 '' @ template_string (at_number BYTE_SIZES 0))
      else
        (let exponent = \<lfloor>ln (real bytes) / ln (real SIZE_BASE)\<rfloor>;
             value = real bytes / (real SIZE_BASE powr real_of_int exponent)
         in if 100 < decimals then Inl RangeError
            else Inr (parseFloat_string (toFixed value decimals) @ '' ''
                      @ template_string (at_number BYTE_SIZES exponent))))"

subsection \<open>Properties of mergeRanges\<close>

lemma mergeRanges_loop_merge_from:
  "1 \<le> i \<Longrightarrow> i \<le> length ranges \<Longrightarrow>
   mergeRanges_loop ranges i acc mergedRanges =
     mergedRanges @ merge_from acc (ranges ! (i - 1)) (drop i ranges)"
proof (induction "length ranges - i" arbitrary: i acc mergedRanges)
  case 0
  then have "drop i ranges = []" and "\<not> i < length ranges" by simp_all
  then show ?case by (simp add: mergeRanges_loop.simps [of ranges i])
next
  case (Suc n)
  then have lt: "i < length ranges" by simp
  then have d: "drop i ranges = ranges ! i # drop (Suc i) ranges"
    by (simp add: Cons_nth_drop_Suc)
  have n: "n = length ranges - Suc i" using Suc.hyps(2) by simp
  have ih: "mergeRanges_loop ranges (Suc i) a m =
              m @ merge_from a (ranges ! i) (drop (Suc i) ranges)" for a m
    using Suc.hyps(1) [OF n, of a m] lt by simp
  show ?case
    by (simp add: mergeRanges_loop.simps [of ranges i] lt d ih Let_def)
qed

lemma mergeRanges_Cons:
  "rs \<noteq> [] \<Longrightarrow> mergeRanges (r # rs) = Inr (merge_from r r rs)"
  using mergeRanges_loop_merge_from [of 1 "r # rs" r "[]"]
  by (cases rs) (simp_all add: mergeRanges_def)

lemma merge_from_ne: "merge_from acc prev rs \<noteq> []"
  by (induction rs arbitrary: acc prev) auto

lemma merge_from_hd:
  "start (hd (merge_from acc prev rs)) = start acc \<and> source (hd (merge_from acc prev rs)) = source acc"
  by (induction rs arbitrary: acc prev) auto

lemma merge_from_last:
  "end' acc = end' prev \<Longrightarrow> end' (last (merge_from acc prev rs)) = end' (last (prev # rs))"
  by (induction rs arbitrary: acc prev) (auto simp: merge_from_ne)

lemma contiguous_Cons:
  "contiguous (r # rs) = ((rs \<noteq> [] \<longrightarrow> start (hd rs) = end' r + 1) \<and> contiguous rs)"
  by (cases rs) auto

lemma merge_from_contiguous:
  "end' acc = end' prev \<Longrightarrow> contiguous (prev # rs) \<Longrightarrow> contiguous (merge_from acc prev rs)"
proof (induction rs arbitrary: acc prev)
  case Nil
  then show ?case by simp
next
  case (Cons r rs)
  from Cons.prems have c: "start r = end' prev + 1" "contiguous (r # rs)" by simp_all
  show ?case
  proof (cases "source r = source prev \<and> start r - end' prev = 1")
    case True
    then show ?thesis using Cons.IH [of "acc\<lparr>end' := end' r\<rparr>" r] c by simp
  next
    case False
    have "contiguous (merge_from r r rs)" using Cons.IH [of r r] c by simp
    then show ?thesis using False c Cons.prems(1)
      by (simp add: contiguous_Cons [of acc] merge_from_ne merge_from_hd)
  qed
qed

lemma merge_from_valid:
  "end' acc = end' prev \<Longrightarrow> start acc \<le> end' acc \<Longrightarrow> contiguous (prev # rs) \<Longrightarrow>
   \<forall>r \<in> set rs. start r \<le> end' r \<Longrightarrow>
   \<forall>x \<in> set (merge_from acc prev rs). start x \<le> end' x"
proof (induction rs arbitrary: acc prev)
  case Nil
  then show ?case by simp
next
  case (Cons r rs)
  from Cons.prems have c: "start r = end' prev + 1" "contiguous (r # rs)"
    "start r \<le> end' r" "\<forall>r \<in> set rs. start r \<le> end' r" by simp_all
  show ?case
  proof (cases "source r = source prev \<and> start r - end' prev = 1")
    case True
    have "\<forall>x \<in> set (merge_from (acc\<lparr>end' := end' r\<rparr>) r rs). start x \<le> end' x"
      using Cons.IH [of "acc\<lparr>end' := end' r\<rparr>" r] c Cons.prems(1,2) by simp
    moreover have "merge_from acc prev (r # rs) = merge_from (acc\<lparr>end' := end' r\<rparr>) r rs"
      using True by simp
    ultimately show ?thesis by simp
  next
    case False
    have "\<forall>x \<in> set (merge_from r r rs). start x \<le> end' x"
      using Cons.IH [of r r] c by simp
    moreover have "merge_from acc prev (r # rs) = acc # merge_from r r rs"
      using False by auto
    ultimately show ?thesis using Cons.prems(2) by simp
  qed
qed

lemma merged_form_Cons:
  "merged_form (r # rs) =
     ((rs \<noteq> [] \<longrightarrow> \<not> (source (hd rs) = source r \<and> start (hd rs) - end' r = 1)) \<and> merged_form rs)"
  by (cases rs) auto

lemma merge_from_merged_form:
  "source acc = source prev \<Longrightarrow> end' acc = end' prev \<Longrightarrow> merged_form (merge_from acc prev rs)"
proof (induction rs arbitrary: acc prev)
  case Nil
  then show ?case by simp
next
  case (Cons r rs)
  show ?case
  proof (cases "source r = source prev \<and> start r - end' prev = 1")
    case True
    then show ?thesis using Cons.IH [of "acc\<lparr>end' := end' r\<rparr>" r] Cons.prems by simp
  next
    case False
    have "merged_form (merge_from r r rs)" using Cons.IH [of r r] by simp
    moreover have "merge_from acc prev (r # rs) = acc # merge_from r r rs"
      using False by auto
    ultimately show ?thesis using False Cons.prems
      by (auto simp: merged_form_Cons [of acc] merge_from_ne merge_from_hd)
  qed
qed

lemma merge_from_fixed: "merged_form (r # rs) \<Longrightarrow> merge_from r r rs = r # rs"
  by (induction rs arbitrary: r) auto

lemma contiguous_after:
  "contiguous (r # rs) \<Longrightarrow> \<forall>x \<in> set rs. start x \<le> end' x \<Longrightarrow> \<forall>x \<in> set rs. end' r < start x"
proof (induction rs arbitrary: r)
  case Nil
  then show ?case by simp
next
  case (Cons a rs)
  then have "\<forall>x \<in> set rs. end' a < start x" by simp
  with Cons.prems show ?case by fastforce
qed

lemma non_overlapping_Cons:
  "non_overlapping (r # rs) = ((\<forall>x \<in> set rs. end' r < start x) \<and> non_overlapping rs)"
proof
  assume h: "non_overlapping (r # rs)"
  have "\<forall>x \<in> set rs. end' r < start x"
  proof
    fix x assume "x \<in> set rs"
    then obtain j where "j < length rs" "rs ! j = x" by (auto simp: in_set_conv_nth)
    with h [unfolded non_overlapping_def, rule_format, of 0 "Suc j"] show "end' r < start x" by simp
  qed
  moreover have "non_overlapping rs"
    unfolding non_overlapping_def
  proof (intro allI impI)
    fix i j assume "i < j \<and> j < length rs"
    with h [unfolded non_overlapping_def, rule_format, of "Suc i" "Suc j"]
    show "end' (rs ! i) < start (rs ! j)" by simp
  qed
  ultimately show "(\<forall>x \<in> set rs. end' r < start x) \<and> non_overlapping rs" ..
next
  assume h: "(\<forall>x \<in> set rs. end' r < start x) \<and> non_overlapping rs"
  show "non_overlapping (r # rs)"
    unfolding non_overlapping_def
  proof (intro allI impI)
    fix i j assume ij: "i < j \<and> j < length (r # rs)"
    then obtain j' where j: "j = Suc j'" by (cases j) auto
    show "end' ((r # rs) ! i) < start ((r # rs) ! j)"
    proof (cases i)
      case 0
      with h ij j show ?thesis by simp
    next
      case (Suc i')
      with h ij j show ?thesis by (simp add: non_overlapping_def)
    qed
  qed
qed

lemma contiguous_non_overlapping:
  "contiguous rs \<Longrightarrow> \<forall>x \<in> set rs. start x \<le> end' x \<Longrightarrow> non_overlapping rs"
proof (induction rs)
  case Nil
  then show ?case by (simp add: non_overlapping_def)
next
  case (Cons r rs)
  then show ?case
    using contiguous_after [of r rs] by (simp add: non_overlapping_Cons contiguous_Cons)
qed

lemma contiguous_covered:
  "contiguous (r # rs) \<Longrightarrow> \<forall>x \<in> set (r # rs). start x \<le> end' x \<Longrightarrow>
   covered (r # rs) = {start r .. end' (last (r # rs))} \<and> start r \<le> end' (last (r # rs))"
proof (induction rs arbitrary: r)
  case Nil
  then show ?case by (simp add: covered_def bytes_of_def)
next
  case (Cons a rs)
  define e where "e = end' (last (a # rs))"
  have l: "end' (last (r # a # rs)) = e" by (simp add: e_def)
  from Cons.prems have "contiguous (a # rs)" "\<forall>x \<in> set (a # rs). start x \<le> end' x"
    by simp_all
  from Cons.IH [OF this] have ih: "covered (a # rs) = {start a .. e}" "start a \<le> e"
    unfolding e_def by simp_all
  have c: "covered (r # a # rs) = bytes_of r \<union> covered (a # rs)"
    by (simp add: covered_def)
  from Cons.prems have "start a = end' r + 1" "start r \<le> end' r" by simp_all
  with ih show ?case unfolding l c by (auto simp: bytes_of_def)
qed


lemma mergeRanges_merged_form:
  assumes "ys \<noteq> []" and "merged_form ys"
  shows "mergeRanges ys = Inr ys"
proof (cases ys)
  case Nil
  with assms show ?thesis by simp
next
  case (Cons r rs)
  show ?thesis
  proof (cases "rs = []")
    case True
    with Cons show ?thesis by (simp add: mergeRanges_def)
  next
    case False
    with Cons assms show ?thesis by (simp add: mergeRanges_Cons merge_from_fixed)
  qed
qed

text \<open>
  C1. For every non-empty range list whose consecutive ranges are contiguous (each range
  starts at the end of the one before plus 1), \<open>mergeRanges\<close> returns a list, without an
  error, that is contiguous again, starts at the start of the first input range and ends
  at the end of the last one. When the input is ordered (every range has
  \<open>start \<le> end\<close>), so is the output, its ranges are pairwise non-overlapping, and they
  cover exactly the byte interval of the input: no gaps, no overlaps.
\<close>

theorem mergeRanges_contiguous_cover:
  assumes "ranges \<noteq> []" and "contiguous ranges"
  shows "\<exists>out. mergeRanges ranges = Inr out \<and> out \<noteq> [] \<and> contiguous out
           \<and> start (hd out) = start (hd ranges) \<and> end' (last out) = end' (last ranges)
           \<and> ((\<forall>r \<in> set ranges. start r \<le> end' r) \<longrightarrow>
                (\<forall>r \<in> set out. start r \<le> end' r) \<and> non_overlapping out
                \<and> covered out = {start (hd ranges) .. end' (last ranges)}
                \<and> covered out = covered ranges)"
proof -
  from assms(1) obtain r rs where ranges: "ranges = r # rs" by (cases ranges) auto
  define out where "out = (if rs = [] then [r] else merge_from r r rs)"
  have m: "mergeRanges ranges = Inr out"
    by (simp add: ranges out_def mergeRanges_Cons) (simp add: mergeRanges_def)
  have out: "out = merge_from r r rs" by (simp add: out_def)
  have ne: "out \<noteq> []" by (simp add: out merge_from_ne)
  have c: "contiguous out"
    using assms(2) by (simp add: out ranges merge_from_contiguous)
  have h: "start (hd out) = start (hd ranges)" by (simp add: out ranges merge_from_hd)
  have l: "end' (last out) = end' (last ranges)"
    unfolding out ranges by (rule merge_from_last) simp
  have v: "(\<forall>r \<in> set out. start r \<le> end' r) \<and> non_overlapping out
           \<and> covered out = {start (hd ranges) .. end' (last ranges)}
           \<and> covered out = covered ranges"
    if valid: "\<forall>r \<in> set ranges. start r \<le> end' r"
  proof -
    have vo: "\<forall>x \<in> set out. start x \<le> end' x"
      unfolding out using assms(2) valid by (intro merge_from_valid) (simp_all add: ranges)
    have no: "non_overlapping out" using c vo by (rule contiguous_non_overlapping)
    obtain a as where o: "out = a # as" using ne by (cases out) auto
    have "covered out = {start (hd out) .. end' (last out)}"
      using contiguous_covered [of a as] c vo by (simp add: o)
    then have co: "covered out = {start (hd ranges) .. end' (last ranges)}" by (simp only: h l)
    have "covered ranges = {start (hd ranges) .. end' (last ranges)}"
      using contiguous_covered [of r rs] assms(2) valid by (simp add: ranges)
    with vo no co show ?thesis by simp
  qed
  from m ne c h l v show ?thesis by blast
qed

theorem mergeRanges_contiguous_cover_witness:
  "[\<lparr>start = 0, end' = 4, source = ''a''\<rparr>, \<lparr>start = 5, end' = 9, source = ''a''\<rparr>,
    \<lparr>start = 10, end' = 14, source = ''b''\<rparr>] \<noteq> []
   \<and> contiguous [\<lparr>start = 0, end' = 4, source = ''a''\<rparr>, \<lparr>start = 5, end' = 9, source = ''a''\<rparr>,
        \<lparr>start = 10, end' = 14, source = ''b''\<rparr>]
   \<and> list_all (\<lambda>r. start r \<le> end' r)
        [\<lparr>start = 0, end' = 4, source = ''a''\<rparr>, \<lparr>start = 5, end' = 9, source = ''a''\<rparr>,
         \<lparr>start = 10, end' = 14, source = ''b''\<rparr>]
   \<and> (\<exists>out. mergeRanges [\<lparr>start = 0, end' = 4, source = ''a''\<rparr>,
          \<lparr>start = 5, end' = 9, source = ''a''\<rparr>, \<lparr>start = 10, end' = 14, source = ''b''\<rparr>] = Inr out
        \<and> out = [\<lparr>start = 0, end' = 9, source = ''a''\<rparr>, \<lparr>start = 10, end' = 14, source = ''b''\<rparr>]
        \<and> contiguous out \<and> start (hd out) = 0 \<and> end' (last out) = 14
        \<and> (\<forall>r \<in> set out. start r \<le> end' r) \<and> non_overlapping out
        \<and> covered out = {0 .. 14})"
  using mergeRanges_contiguous_cover
    [of "[\<lparr>start = 0, end' = 4, source = ''a''\<rparr>, \<lparr>start = 5, end' = 9, source = ''a''\<rparr>,
          \<lparr>start = 10, end' = 14, source = ''b''\<rparr>]"]
  by (simp add: mergeRanges_Cons)

text \<open>
  C2. A range list of length at most 1 is returned unchanged, with no error raised. The
  source returns early only when the length is exactly 1: on the empty list the early
  return is missed, \<open>ranges[0]\<close> is \<open>undefined\<close> and its destructuring throws a
  \<open>TypeError\<close>. A list of one range is returned as it is.
\<close>

theorem mergeRanges_empty_raises:
  "mergeRanges [] = Inl TypeError \<and> (\<forall>r. mergeRanges [r] = Inr [r])"
  by (simp add: mergeRanges_def)

text \<open>
  C6. Merge idempotence: \<open>mergeRanges(mergeRanges(x))\<close> equals \<open>mergeRanges(x)\<close> for every
  range list \<open>x\<close>. Both sides are evaluated with exceptions as values: for a non-empty
  \<open>x\<close> the first merge returns a list that the second merge returns unchanged, and for
  the empty list both sides raise the same \<open>TypeError\<close>.
\<close>

theorem mergeRanges_idempotent:
  "(case mergeRanges x of Inl e \<Rightarrow> Inl e | Inr y \<Rightarrow> mergeRanges y) = mergeRanges x
   \<and> (x \<noteq> [] \<longrightarrow> (\<exists>y. mergeRanges x = Inr y \<and> mergeRanges y = Inr y))"
proof (cases x)
  case Nil
  then show ?thesis by (simp add: mergeRanges_def)
next
  case (Cons r rs)
  show ?thesis
  proof (cases "rs = []")
    case True
    with Cons show ?thesis by (simp add: mergeRanges_def)
  next
    case False
    then have m: "mergeRanges x = Inr (merge_from r r rs)"
      by (simp add: Cons mergeRanges_Cons)
    have "mergeRanges (merge_from r r rs) = Inr (merge_from r r rs)"
      by (rule mergeRanges_merged_form) (simp_all add: merge_from_ne merge_from_merged_form)
    with m show ?thesis by simp
  qed
qed

theorem mergeRanges_idempotent_witness:
  "[\<lparr>start = 0, end' = 4, source = ''a''\<rparr>, \<lparr>start = 5, end' = 9, source = ''a''\<rparr>,
    \<lparr>start = 12, end' = 14, source = ''a''\<rparr>] \<noteq> []
   \<and> mergeRanges [\<lparr>start = 0, end' = 4, source = ''a''\<rparr>, \<lparr>start = 5, end' = 9, source = ''a''\<rparr>,
        \<lparr>start = 12, end' = 14, source = ''a''\<rparr>]
       = Inr [\<lparr>start = 0, end' = 9, source = ''a''\<rparr>, \<lparr>start = 12, end' = 14, source = ''a''\<rparr>]
   \<and> mergeRanges [\<lparr>start = 0, end' = 9, source = ''a''\<rparr>, \<lparr>start = 12, end' = 14, source = ''a''\<rparr>]
       = Inr [\<lparr>start = 0, end' = 9, source = ''a''\<rparr>, \<lparr>start = 12, end' = 14, source = ''a''\<rparr>]"
  using mergeRanges_idempotent
    [of "[\<lparr>start = 0, end' = 4, source = ''a''\<rparr>, \<lparr>start = 5, end' = 9, source = ''a''\<rparr>,
          \<lparr>start = 12, end' = 14, source = ''a''\<rparr>]"]
  by (simp add: mergeRanges_Cons)

subsection \<open>Properties of getOccurrencesCount\<close>

lemma indexOf_from_empty: "indexOf_from s [] k = int k"
  by (cases s) simp_all

lemma indexOf_empty_nonneg: "0 \<le> indexOf s [] p"
  by (simp add: indexOf_def indexOf_from_empty Let_def)

lemma getOccurrencesCount_loop_empty:
  assumes "getOccurrencesCount_loop subString string count position = Some n"
  shows "subString = [] \<longrightarrow> position < 0"
proof (rule getOccurrencesCount_loop.raw_induct [OF _ assms])
  fix loop :: "string \<Rightarrow> string \<Rightarrow> nat \<Rightarrow> int \<Rightarrow> nat option"
    and subString string :: string and count n :: nat and position :: int
  assume IH: "\<And>subString string count position n.
    loop subString string count position = Some n \<Longrightarrow> subString = [] \<longrightarrow> position < 0"
  assume step: "(if position \<noteq> - 1
      then loop subString string (count + 1)
             (indexOf string subString (position + int (length subString)))
      else Some count) = Some n"
  show "subString = [] \<longrightarrow> position < 0"
  proof (cases "position \<noteq> - 1")
    case True
    with step have "loop subString string (count + 1)
        (indexOf string subString (position + int (length subString))) = Some n" by simp
    from IH [OF this] have "subString = [] \<longrightarrow> indexOf string [] position < 0"
      by auto
    with indexOf_empty_nonneg [of string position] show ?thesis by auto
  next
    case False
    then show ?thesis by simp
  qed
qed

lemma getOccurrencesCount_ab: "getOccurrencesCount ''ab'' ''ababab'' = Some 3"
  by (simp add: getOccurrencesCount_def getOccurrencesCount_loop.simps indexOf_def)

text \<open>
  C3. \<open>getOccurrencesCount("", s)\<close> terminates and returns 0 for every string \<open>s\<close>. The
  source has no guard for the empty substring: \<open>indexOf("", p)\<close> is never \<open>-1\<close> and the
  position advances by the length 0, so the loop never ends and nothing is returned.
\<close>

theorem getOccurrencesCount_empty_loops:
  "getOccurrencesCount '''' s = None"
proof (cases "getOccurrencesCount '''' s")
  case None
  then show ?thesis .
next
  case (Some n)
  then have "indexOf s [] 0 < 0"
    unfolding getOccurrencesCount_def by (auto dest: getOccurrencesCount_loop_empty)
  with indexOf_empty_nonneg [of s 0] show ?thesis by simp
qed

subsection \<open>Properties of splitLinesByEOL\<close>

lemma string_split_ne: "separator \<noteq> [] \<Longrightarrow> string_split s separator \<noteq> []"
  by (subst string_split.simps) (auto split: list.splits)

lemma join_Cons: "xs \<noteq> [] \<Longrightarrow> join separator (x # xs) = x @ separator @ join separator xs"
  by (cases xs) auto

lemma join_string_split: "separator \<noteq> [] \<Longrightarrow> join separator (string_split s separator) = s"
proof (induction s separator rule: string_split.induct)
  case (1 s separator)
  show ?case
  proof (cases "s = []")
    case True
    with "1.prems" show ?thesis by (simp add: string_split.simps [of "[]"])
  next
    case ne: False
    show ?thesis
    proof (cases "prefix separator s")
      case True
      then have "s = separator @ drop (length separator) s"
        by (auto simp: prefix_def)
      moreover have "join separator (string_split (drop (length separator) s) separator)
                       = drop (length separator) s"
        using "1.IH"(1) "1.prems" ne True by simp
      moreover have "string_split s separator
                       = [] # string_split (drop (length separator) s) separator"
        using "1.prems" ne True by (simp add: string_split.simps [of s])
      ultimately show ?thesis using "1.prems" by (simp add: join_Cons string_split_ne)
    next
      case False
      have ih: "join separator (string_split (tl s) separator) = tl s"
        using "1.IH"(2) "1.prems" ne False by simp
      obtain t ts where t: "string_split (tl s) separator = t # ts"
        using string_split_ne [OF "1.prems", of "tl s"] by (cases "string_split (tl s) separator") auto
      have "string_split s separator = (hd s # t) # ts"
        using "1.prems" ne False t by (simp add: string_split.simps [of s])
      moreover have "join separator ((hd s # t) # ts) = hd s # join separator (t # ts)"
        by (cases ts) simp_all
      ultimately show ?thesis using ih t ne by simp
    qed
  qed
qed


lemma rejoin_Cons: "es \<noteq> [] \<Longrightarrow> rejoin (e # es) = line e @ eol e @ rejoin es"
  by (cases es) auto

lemma rejoin_append:
  "es' \<noteq> [] \<Longrightarrow> rejoin (es @ es') = concat (map (\<lambda>e. line e @ eol e) es) @ rejoin es'"
  by (induction es) (simp_all add: rejoin_Cons)

lemma foldl_append_concat:
  "foldl (\<lambda>arr (i, e). arr @ g i e) a xs = a @ concat (map (\<lambda>(i, e). g i e) xs)"
  by (induction xs arbitrary: a) auto

lemma entries_of_piece:
  assumes "xs \<noteq> []"
  shows "map (\<lambda>(j, l). \<lparr>line = l, eol = (if int j < int (length xs) - 1 \<or> b then LF else CR_LF)\<rparr>)
           (enumerate 0 xs)
         = map (\<lambda>l. \<lparr>line = l, eol = LF\<rparr>) (butlast xs)
           @ [\<lparr>line = last xs, eol = (if b then LF else CR_LF)\<rparr>]"
proof (rule nth_equalityI)
  show "length (map (\<lambda>(j, l). \<lparr>line = l, eol = (if int j < int (length xs) - 1 \<or> b then LF else CR_LF)\<rparr>)
           (enumerate 0 xs))
        = length (map (\<lambda>l. \<lparr>line = l, eol = LF\<rparr>) (butlast xs)
           @ [\<lparr>line = last xs, eol = (if b then LF else CR_LF)\<rparr>])"
    using assms by simp
next
  fix i
  assume "i < length (map (\<lambda>(j, l). \<lparr>line = l, eol = (if int j < int (length xs) - 1 \<or> b then LF else CR_LF)\<rparr>)
           (enumerate 0 xs))"
  then have i: "i < length xs" by simp
  show "map (\<lambda>(j, l). \<lparr>line = l, eol = (if int j < int (length xs) - 1 \<or> b then LF else CR_LF)\<rparr>)
           (enumerate 0 xs) ! i
        = (map (\<lambda>l. \<lparr>line = l, eol = LF\<rparr>) (butlast xs)
           @ [\<lparr>line = last xs, eol = (if b then LF else CR_LF)\<rparr>]) ! i"
  proof (cases "i < length xs - 1")
    case True
    then have "int i < int (length xs) - 1" by linarith
    with True i show ?thesis by (simp add: nth_enumerate_eq nth_append nth_butlast)
  next
    case False
    with i have il: "i = length xs - 1" by simp
    have e: "(if int i < int (length xs) - 1 \<or> b then LF else CR_LF) = (if b then LF else CR_LF)"
      using il assms by (cases xs) auto
    have x: "xs ! i = last xs" using il assms by (simp add: last_conv_nth)
    have lhs: "map (\<lambda>(j, l). \<lparr>line = l, eol = (if int j < int (length xs) - 1 \<or> b then LF else CR_LF)\<rparr>)
           (enumerate 0 xs) ! i
        = \<lparr>line = xs ! i, eol = (if int i < int (length xs) - 1 \<or> b then LF else CR_LF)\<rparr>"
      using i by (simp add: nth_enumerate_eq)
    have rhs: "(map (\<lambda>l. \<lparr>line = l, eol = LF\<rparr>) (butlast xs)
           @ [\<lparr>line = last xs, eol = (if b then LF else CR_LF)\<rparr>]) ! i
        = \<lparr>line = last xs, eol = (if b then LF else CR_LF)\<rparr>"
      using il by (simp add: nth_append)
    show ?thesis unfolding lhs rhs e x ..
  qed
qed

lemma join_butlast_last:
  "xs \<noteq> [] \<Longrightarrow>
   concat (map (\<lambda>e. line e @ eol e) (map (\<lambda>l. \<lparr>line = l, eol = sep\<rparr>) (butlast xs))) @ last xs
     = join sep xs"
proof (induction xs)
  case Nil
  then show ?case by simp
next
  case (Cons x xs)
  then show ?case by (cases "xs = []") (simp_all add: join_Cons)
qed


lemma LF_ne: "LF \<noteq> []" and CR_LF_ne: "CR_LF \<noteq> []"
  by (simp_all add: LF_def CR_LF_def)

lemma piece_entries_eq:
  "(let orig = string_split e LF
    in map (\<lambda>(j, line).
         \<lparr>line = line, eol = (if int j < int (length orig) - 1 \<or> b then LF else CR_LF)\<rparr>)
       (enumerate 0 orig)) = piece_entries b e"
  unfolding Let_def piece_entries_def
  by (rule entries_of_piece) (simp add: string_split_ne LF_ne)

lemma rejoin_piece_entries: "rejoin (piece_entries b e) = e"
proof -
  have "rejoin (piece_entries b e)
          = concat (map (\<lambda>e. line e @ eol e)
              (map (\<lambda>l. \<lparr>line = l, eol = LF\<rparr>) (butlast (string_split e LF))))
            @ last (string_split e LF)"
    by (simp add: piece_entries_def rejoin_append)
  also have "\<dots> = join LF (string_split e LF)"
    by (rule join_butlast_last) (simp add: string_split_ne LF_ne)
  also have "\<dots> = e" by (simp add: join_string_split LF_ne)
  finally show ?thesis .
qed

lemma concat_piece_entries:
  "concat (map (\<lambda>e. line e @ eol e) (piece_entries b e)) = e @ (if b then LF else CR_LF)"
proof -
  have "concat (map (\<lambda>e. line e @ eol e) (piece_entries b e))
          = (concat (map (\<lambda>e. line e @ eol e)
              (map (\<lambda>l. \<lparr>line = l, eol = LF\<rparr>) (butlast (string_split e LF))))
            @ last (string_split e LF)) @ (if b then LF else CR_LF)"
    by (simp add: piece_entries_def)
  also have "\<dots> = join LF (string_split e LF) @ (if b then LF else CR_LF)"
    by (subst join_butlast_last) (simp_all add: string_split_ne LF_ne)
  also have "\<dots> = e @ (if b then LF else CR_LF)" by (simp add: join_string_split LF_ne)
  finally show ?thesis .
qed

lemma piece_entries_ne: "piece_entries b e \<noteq> []"
  by (simp add: piece_entries_def)

lemma rejoin_pieces:
  "cs \<noteq> [] \<Longrightarrow>
   rejoin (concat (map (\<lambda>(i, e). piece_entries (int i = int (k + length cs) - 1) e) (enumerate k cs)))
     = join CR_LF cs"
proof (induction cs arbitrary: k)
  case Nil
  then show ?case by simp
next
  case (Cons c cs)
  show ?case
  proof (cases "cs = []")
    case True
    then show ?thesis by (simp add: rejoin_piece_entries)
  next
    case False
    let ?rest = "concat (map (\<lambda>(i, e). piece_entries (int i = int (Suc k + length cs) - 1) e)
                   (enumerate (Suc k) cs))"
    have ih: "rejoin ?rest = join CR_LF cs" using Cons.IH [OF False, of "Suc k"] .
    obtain d ds where cs: "cs = d # ds" using False by (cases cs) auto
    have ne: "?rest \<noteq> []" by (simp add: cs piece_entries_ne)
    have k: "\<not> int k = int (k + length (c # cs)) - 1" using False by (simp add: cs)
    have "concat (map (\<lambda>(i, e). piece_entries (int i = int (k + length (c # cs)) - 1) e)
                   (enumerate k (c # cs)))
            = piece_entries False c @ ?rest"
      using k by simp
    then have "rejoin (concat (map (\<lambda>(i, e). piece_entries (int i = int (k + length (c # cs)) - 1) e)
                   (enumerate k (c # cs))))
            = c @ CR_LF @ rejoin ?rest"
      using ne by (simp add: rejoin_append concat_piece_entries)
    with ih False show ?thesis by (simp add: join_Cons)
  qed
qed

lemma splitLinesByEOL_pieces:
  "splitLinesByEOL content =
     concat (map (\<lambda>(i, e). piece_entries (int i = int (0 + length (string_split content CR_LF)) - 1) e)
       (enumerate 0 (string_split content CR_LF)))"
  by (simp add: splitLinesByEOL_def Let_def piece_entries_eq [unfolded Let_def]
      foldl_append_concat)

lemma splitLinesByEOL_mixed:
  "splitLinesByEOL [CHR ''a'', CHR 0x0D, CHR 0x0A, CHR ''b'', CHR 0x0A, CHR ''c'']
     = [\<lparr>line = ''a'', eol = CR_LF\<rparr>, \<lparr>line = ''b'', eol = LF\<rparr>, \<lparr>line = ''c'', eol = LF\<rparr>]"
  by code_simp

text \<open>
  C5. Round trip: for every string \<open>s\<close>, joining the entries of \<open>splitLinesByEOL(s)\<close> in
  order, each line followed by its \<open>eol\<close> and the \<open>eol\<close> of the last entry left out,
  gives \<open>s\<close> back, whatever mixture of \<open>\n\<close> and \<open>\r\n\<close> terminators \<open>s\<close> holds.
\<close>

theorem splitLinesByEOL_roundtrip: "rejoin (splitLinesByEOL s) = s"
proof -
  have "rejoin (splitLinesByEOL s) = join CR_LF (string_split s CR_LF)"
    unfolding splitLinesByEOL_pieces
    by (rule rejoin_pieces) (simp add: string_split_ne CR_LF_ne)
  then show ?thesis by (simp add: join_string_split CR_LF_ne)
qed

subsection \<open>Properties of getCommonPathPrefix\<close>

lemma split_PATH_SEPARATOR_REGEX_ne: "split_PATH_SEPARATOR_REGEX s \<noteq> []"
  by (induction s) (auto split: list.splits)

lemma concat_split_PATH_SEPARATOR_REGEX: "concat (split_PATH_SEPARATOR_REGEX s) = s"
  by (induction s) (auto split: list.splits)

lemma getCommonPathPrefix_loop_take:
  "i \<le> length a1 \<Longrightarrow> take i a1 = take i a2 \<Longrightarrow> i \<le> length a2 \<Longrightarrow>
   getCommonPathPrefix_loop a1 a2 (length a1) i \<le> length a1
   \<and> getCommonPathPrefix_loop a1 a2 (length a1) i \<le> length a2
   \<and> take (getCommonPathPrefix_loop a1 a2 (length a1) i) a1
       = take (getCommonPathPrefix_loop a1 a2 (length a1) i) a2"
proof (induction "length a1 - i" arbitrary: i)
  case 0
  then have "getCommonPathPrefix_loop a1 a2 (length a1) i = i"
    by (subst getCommonPathPrefix_loop.simps) simp
  with "0.prems" show ?case by (simp only:)
next
  case (Suc n)
  then have lt: "i < length a1" by simp
  show ?case
  proof (cases "at_index a1 i = at_index a2 i")
    case False
    then have "getCommonPathPrefix_loop a1 a2 (length a1) i = i"
      by (subst getCommonPathPrefix_loop.simps) simp
    with Suc.prems show ?thesis by (simp only:)
  next
    case True
    with lt have lt2: "i < length a2" and eq: "a1 ! i = a2 ! i"
      by (auto simp: at_index_def split: if_splits)
    have "take (Suc i) a1 = take (Suc i) a2"
      using lt lt2 eq Suc.prems(2) by (simp add: take_Suc_conv_app_nth)
    moreover have "n = length a1 - Suc i" using Suc.hyps(2) by simp
    ultimately have "getCommonPathPrefix_loop a1 a2 (length a1) (Suc i) \<le> length a1
      \<and> getCommonPathPrefix_loop a1 a2 (length a1) (Suc i) \<le> length a2
      \<and> take (getCommonPathPrefix_loop a1 a2 (length a1) (Suc i)) a1
          = take (getCommonPathPrefix_loop a1 a2 (length a1) (Suc i)) a2"
      using Suc.hyps(1) [of "Suc i"] lt lt2 by simp
    moreover have "getCommonPathPrefix_loop a1 a2 (length a1) i
                     = getCommonPathPrefix_loop a1 a2 (length a1) (Suc i)"
      using lt True by (simp add: getCommonPathPrefix_loop.simps [of a1 a2 "length a1" i])
    ultimately show ?thesis by simp
  qed
qed

lemma prefix_concat_take: "prefix (concat (take i xs)) (concat xs)"
proof -
  have "concat xs = concat (take i xs) @ concat (drop i xs)"
    by (metis append_take_drop_id concat_append)
  then show ?thesis by (metis prefixI)
qed

lemma prefix_between:
  fixes r x p y :: string
  shows "x \<le> p \<Longrightarrow> p \<le> y \<Longrightarrow> prefix r x \<Longrightarrow> prefix r y \<Longrightarrow> prefix r p"
proof (induction r arbitrary: x p y)
  case Nil
  then show ?case by simp
next
  case (Cons c r)
  from Cons.prems(3) obtain x' where x: "x = c # x'" and px: "prefix r x'"
    by (cases x) auto
  from Cons.prems(4) obtain y' where y: "y = c # y'" and py: "prefix r y'"
    by (cases y) auto
  from Cons.prems(1) x obtain d p' where p: "p = d # p'" by (cases p) auto
  from Cons.prems(1,2) have "c = d" "x' \<le> p'" "p' \<le> y'"
    unfolding x y p by (auto simp: Cons_le_Cons)
  with Cons.IH [OF _ _ px py] show ?case by (simp add: p)
qed

lemma sort_bounds:
  fixes paths :: "string list"
  assumes "p \<in> set paths"
  shows "sort paths ! 0 \<le> p \<and> p \<le> sort paths ! (length (sort paths) - 1)"
proof -
  from assms have "p \<in> set (sort paths)" by simp
  then obtain k where k: "k < length (sort paths)" "sort paths ! k = p"
    by (metis in_set_conv_nth)
  have s: "sorted (sort paths)" by simp
  from sorted_nth_mono [OF s, of 0 k] k have "sort paths ! 0 \<le> p" by simp
  moreover from sorted_nth_mono [OF s, of k "length (sort paths) - 1"] k
  have "p \<le> sort paths ! (length (sort paths) - 1)" by simp
  ultimately show ?thesis ..
qed

lemma getCommonPathPrefix_common_prefix:
  assumes "p \<in> set paths"
  shows "prefix (getCommonPathPrefix paths) p"
proof (cases "length paths < 2")
  case True
  then show ?thesis by (simp add: getCommonPathPrefix_def)
next
  case False
  define A where "A = sort paths"
  define a1 where "a1 = split_PATH_SEPARATOR_REGEX (A ! 0)"
  define a2 where "a2 = split_PATH_SEPARATOR_REGEX (A ! (length A - 1))"
  define i where "i = getCommonPathPrefix_loop a1 a2 (length a1) 0"
  have r: "getCommonPathPrefix paths = concat (take i a1)"
    using False by (simp add: getCommonPathPrefix_def Let_def A_def a1_def a2_def i_def)
  have t: "take i a1 = take i a2"
    using getCommonPathPrefix_loop_take [of 0 a1 a2] by (simp add: i_def)
  have "prefix (concat (take i a1)) (A ! 0)"
    using prefix_concat_take [of i a1] by (simp add: a1_def concat_split_PATH_SEPARATOR_REGEX)
  moreover have "prefix (concat (take i a1)) (A ! (length A - 1))"
    using prefix_concat_take [of i a2] by (simp add: t a2_def concat_split_PATH_SEPARATOR_REGEX)
  moreover have "A ! 0 \<le> p" "p \<le> A ! (length A - 1)"
    using sort_bounds [OF assms] by (simp_all add: A_def)
  ultimately show ?thesis unfolding r by (metis prefix_between)
qed

text \<open>
  C4. \<open>getCommonPathPrefix(["/x/y", "/z/y"])\<close> is the empty string. It is not: the two
  paths share the leading separator, and the result is \<open>"/"\<close>.
\<close>

theorem getCommonPathPrefix_x_z_counterexample:
  "getCommonPathPrefix [''/x/y'', ''/z/y''] \<noteq> ''''"
  by code_simp

text \<open>
  C4, amended. \<open>getCommonPathPrefix(["/x/y", "/z/y"])\<close> is \<open>"/"\<close>, the separator that both
  paths start with; and whenever the supplied paths share no non-empty common prefix the
  result is the empty string.
\<close>

theorem getCommonPathPrefix_no_common_prefix:
  "getCommonPathPrefix [''/x/y'', ''/z/y''] = ''/''
   \<and> (\<not> (\<exists>q. q \<noteq> [] \<and> (\<forall>p \<in> set paths. prefix q p)) \<longrightarrow> getCommonPathPrefix paths = '''')"
proof -
  have "getCommonPathPrefix [''/x/y'', ''/z/y''] = ''/''" by code_simp
  moreover have "\<forall>p \<in> set paths. prefix (getCommonPathPrefix paths) p"
    by (simp add: getCommonPathPrefix_common_prefix)
  ultimately show ?thesis by blast
qed

theorem getCommonPathPrefix_no_common_prefix_witness:
  "\<not> (\<exists>q. q \<noteq> [] \<and> prefix q ''a/b'' \<and> prefix q ''b/c'')
   \<and> getCommonPathPrefix [''a/b'', ''b/c''] = ''''"
proof -
  have h: "\<not> (\<exists>q. q \<noteq> [] \<and> (\<forall>p \<in> set [''a/b'', ''b/c'']. prefix q p))"
    by (auto simp: prefix_Cons)
  with getCommonPathPrefix_no_common_prefix [of "[''a/b'', ''b/c'']"] h
  show ?thesis by simp
qed

lemma getCommonPathPrefix_scenarios:
  "getCommonPathPrefix [] = ''''"
  "getCommonPathPrefix [p] = ''''"
  "getCommonPathPrefix [''/a/b/c'', ''/a/b/d''] = ''/a/b/''"
  "getCommonPathPrefix [''/a/bc'', ''/a/bd''] = ''/a/''"
     apply (simp add: getCommonPathPrefix_def)
    apply (simp add: getCommonPathPrefix_def)
   apply code_simp
  apply code_simp
  done

text \<open>
  C7. \<open>getCommonPathPrefix\<close> returns the empty string for fewer than 2 paths, and
  otherwise the longest common prefix of all supplied paths aligned to path-separator
  boundaries. The scenarios of the claim hold (\<open>getCommonPathPrefix_scenarios\<close>), but
  only the smallest and the largest path of the sorted copy are split and compared, and
  a path between them can have another character where they have a separator or their
  end: of \<open>"a"\<close>, \<open>"a-b"\<close>, \<open>"a/b"\<close> the result is \<open>"a"\<close>, which ends inside the only piece
  of \<open>"a-b"\<close>. The one prefix of these three paths that is aligned in each is the empty
  string.
\<close>

theorem getCommonPathPrefix_cuts_segment:
  "getCommonPathPrefix [''a'', ''a-b'', ''a/b''] = ''a''
   \<and> split_PATH_SEPARATOR_REGEX ''a-b'' = [''a-b'']
   \<and> \<not> separator_aligned_prefix ''a'' ''a-b''
   \<and> separator_aligned_prefix '''' ''a'' \<and> separator_aligned_prefix '''' ''a-b''
   \<and> separator_aligned_prefix '''' ''a/b''"
  by code_simp

lemma array_sort_in_place: "array_sort [[''b'', ''a'']] 0 = (0, [[''a'', ''b'']])"
  by code_simp

text \<open>
  C10. \<open>getCommonPathPrefix\<close> never mutates its \<open>paths\<close> argument: the array at the
  address \<open>paths\<close>, and every array that the store held before the call, is the same
  after the call, elements and order; the sort is done on a copy. The result is the one
  of \<open>getCommonPathPrefix\<close> on the elements of the array.
\<close>

theorem getCommonPathPrefix_store_frame:
  assumes "paths < length h"
  shows "snd (getCommonPathPrefix_store h paths) ! paths = h ! paths
         \<and> take (length h) (snd (getCommonPathPrefix_store h paths)) = h
         \<and> fst (getCommonPathPrefix_store h paths) = getCommonPathPrefix (h ! paths)"
  using assms
  by (simp add: getCommonPathPrefix_store_def getCommonPathPrefix_def array_concat_def
      array_sort_def Let_def nth_append)

theorem getCommonPathPrefix_store_frame_witness:
  "(0::nat) < length [[''/a/b/d'', ''/a/b/c'']]
   \<and> getCommonPathPrefix_store [[''/a/b/d'', ''/a/b/c'']] 0
       = (''/a/b/'', [[''/a/b/d'', ''/a/b/c''], [''/a/b/c'', ''/a/b/d'']])
   \<and> snd (getCommonPathPrefix_store [[''/a/b/d'', ''/a/b/c'']] 0) ! 0 = [''/a/b/d'', ''/a/b/c'']"
proof -
  have "getCommonPathPrefix_store [[''/a/b/d'', ''/a/b/c'']] 0
       = (''/a/b/'', [[''/a/b/d'', ''/a/b/c''], [''/a/b/c'', ''/a/b/d'']])"
    by code_simp
  with getCommonPathPrefix_store_frame [of 0 "[[''/a/b/d'', ''/a/b/c'']]"]
  show ?thesis by simp
qed

subsection \<open>Properties of formatBytes\<close>

lemma exponent_eq:
  assumes "1024 ^ k \<le> bytes" and "bytes < 1024 ^ (k + 1)"
  shows "\<lfloor>ln (real bytes) / ln 1024\<rfloor> = int k"
  using floor_log_nat_eq_if [of 1024 k bytes] assms
  by (simp add: log_def)

lemma formatBytes_eq:
  assumes "1024 ^ k \<le> bytes" and "bytes < 1024 ^ (k + 1)" and "decimals \<le> 100"
  shows "formatBytes bytes decimals =
           Inr (parseFloat_string (toFixed (real bytes / 1024 ^ k) decimals) @ '' ''
                @ template_string (at_number BYTE_SIZES (int k)))"
proof -
  have "bytes \<noteq> 0" using assms(1) by (cases bytes) auto
  then show ?thesis
    using assms(3) by (simp add: formatBytes_def exponent_eq [OF assms(1,2)] Let_def SIZE_BASE_def powr_realpow)
qed

text \<open>The scaled value is below 1024, so \<open>toFixed\<close> prints it in full, digit by digit.\<close>

lemma formatBytes_value_bounds:
  assumes "0 < bytes"
  shows "1 \<le> real bytes / (real SIZE_BASE powr real_of_int \<lfloor>ln (real bytes) / ln (real SIZE_BASE)\<rfloor>)
         \<and> real bytes / (real SIZE_BASE powr real_of_int \<lfloor>ln (real bytes) / ln (real SIZE_BASE)\<rfloor>) < 1024"
proof -
  define k where "k = \<lfloor>log 1024 (real bytes)\<rfloor>"
  have b: "1024 powr real_of_int k \<le> real bytes \<and> real bytes < 1024 powr (real_of_int k + 1)"
    using floor_log_eq_powr_iff [of "real bytes" 1024 k] assms by (simp add: k_def)
  have p: "(0::real) < 1024 powr real_of_int k" by simp
  have "(1024::real) powr (real_of_int k + 1) = 1024 * 1024 powr real_of_int k"
    by (simp add: powr_add)
  with b p have "1 \<le> real bytes / (1024 powr real_of_int k)
                 \<and> real bytes / (1024 powr real_of_int k) < 1024"
    by (simp add: divide_simps)
  then show ?thesis by (simp add: k_def log_def SIZE_BASE_def)
qed

text \<open>
  The one inexact step of the source is the exponent: \<open>Math.log\<close> is rounded, and so is
  the division of the two logarithms. For the byte counts evaluated below the exponent
  does not depend on that rounding: whenever \<open>Math_log\<close> and the rounding \<open>rnd\<close> of the
  division are within a relative error of \<open>2^-40\<close> (a double is within \<open>2^-53\<close>) and
  \<open>rnd\<close> keeps the number 1, the exponent of the source is the one computed with \<open>ln\<close>.
\<close>

lemma relative_error_bounds:
  fixes u v :: real
  assumes "\<bar>u - v\<bar> \<le> \<bar>v\<bar> / 2 ^ 40" and "0 \<le> v"
  shows "999 * v \<le> 1000 * u" and "1000 * u \<le> 1001 * v"
proof -
  have "v / 2 ^ 40 \<le> v / 1000" using assms(2) by (intro divide_left_mono) simp_all
  with assms have "\<bar>u - v\<bar> \<le> v / 1000" by simp
  then show "999 * v \<le> 1000 * u" and "1000 * u \<le> 1001 * v" by linarith+
qed

lemma floor_ratio_rounded:
  fixes Math_log rnd :: "real \<Rightarrow> real" and n :: real and k :: nat
  assumes L: "\<And>x. 1 \<le> x \<Longrightarrow> \<bar>Math_log x - ln x\<bar> \<le> \<bar>ln x\<bar> / 2 ^ 40"
    and R: "\<And>y. \<bar>rnd y - y\<bar> \<le> \<bar>y\<bar> / 2 ^ 40"
    and n: "1 \<le> n"
    and lo: "101 * (real k * ln 1024) \<le> 100 * ln n"
    and hi: "101 * ln n \<le> 100 * ((real k + 1) * ln 1024)"
  shows "\<lfloor>rnd (Math_log n / Math_log 1024)\<rfloor> = int k"
proof -
  define a where "a = ln n"
  define b where "b = ln (1024::real)"
  define x where "x = Math_log n"
  define y where "y = Math_log 1024"
  define q where "q = x / y"
  have a0: "0 \<le> a" using n by (simp add: a_def)
  have b0: "0 < b" by (simp add: b_def)
  have x: "999 * a \<le> 1000 * x" "1000 * x \<le> 1001 * a"
    using relative_error_bounds [of x a] L [OF n] a0 by (simp_all add: x_def a_def)
  have y: "999 * b \<le> 1000 * y" "1000 * y \<le> 1001 * b"
    using relative_error_bounds [of y b] L [of 1024] b0 by (simp_all add: y_def b_def)
  have y0: "0 < y" using y(1) b0 by linarith
  have x0: "0 \<le> x" using x(1) a0 by linarith
  have q0: "0 \<le> q" using x0 y0 by (simp add: q_def)
  have qy: "q * y = x" using y0 by (simp add: q_def)
  have r: "999 * q \<le> 1000 * rnd q" "1000 * rnd q \<le> 1001 * q"
    using relative_error_bounds [of "rnd q" q] R [of q] q0 by simp_all
  define K where "K = real k * b"
  define K1 where "K1 = (real k + 1) * b"
  have K0: "0 \<le> K" using b0 by (simp add: K_def)
  have K10: "0 < K1" using b0 by (simp add: K1_def)
  have lo': "101 * K \<le> 100 * a" using lo by (simp add: K_def a_def b_def)
  have hi': "101 * a \<le> 100 * K1" using hi by (simp add: K1_def a_def b_def)
  have ky: "1000 * (real k * y) \<le> 1001 * K"
  proof -
    have "real k * (1000 * y) \<le> real k * (1001 * b)" using y(2) by (intro mult_left_mono) simp_all
    then show ?thesis by (simp add: K_def algebra_simps)
  qed
  have k1y: "999 * K1 \<le> 1000 * ((real k + 1) * y)"
  proof -
    have "(real k + 1) * (999 * b) \<le> (real k + 1) * (1000 * y)"
      using y(1) by (intro mult_left_mono) simp_all
    then show ?thesis by (simp add: K1_def algebra_simps)
  qed
  have low: "1000 * real k \<le> 999 * q"
  proof -
    have "(1000 * real k) * y \<le> 999 * x" using ky x(1) lo' K0 a0 by linarith
    also have "\<dots> = (999 * q) * y" by (simp add: qy [symmetric])
    finally show ?thesis using y0 by simp
  qed
  have up: "1001 * q < 1000 * (real k + 1)"
  proof -
    have "1001 * x < (1000 * (real k + 1)) * y" using k1y x(2) hi' K10 a0 by linarith
    moreover have "1001 * x = (1001 * q) * y" by (simp add: qy [symmetric])
    ultimately show ?thesis using y0 by simp
  qed
  have "1000 * real k \<le> 1000 * rnd q" using low r(1) by (rule order_trans)
  then have f1: "real k \<le> rnd q" by simp
  have "1000 * rnd q < 1000 * (real k + 1)" using r(2) up by (rule le_less_trans)
  then have f2: "rnd q < real k + 1" by simp
  from f1 f2 have "\<lfloor>rnd q\<rfloor> = int k" by (simp add: floor_eq_iff)
  then show ?thesis by (simp add: q_def x_def y_def)
qed


lemma ln_power_bounds:
  fixes n :: real
  assumes "0 < n" and "2 ^ (101 * k) \<le> n ^ 10" and "n ^ 10 \<le> 2 ^ (99 * (k + 1))"
  shows "101 * (real k * ln 1024) \<le> 100 * ln n"
    and "101 * ln n \<le> 100 * ((real k + 1) * ln 1024)"
proof -
  have "(1024::real) = 2 ^ 10" by simp
  then have b: "ln (1024::real) = 10 * ln 2" by (simp only: ln_realpow)
  have l2: "0 < ln (2::real)" by simp
  have "ln ((2::real) ^ (101 * k)) \<le> ln (n ^ 10)"
    using assms(1,2) by (subst ln_le_cancel_iff) simp_all
  then have lo: "101 * real k * ln 2 \<le> 10 * ln n"
    using assms(1) by (simp add: ln_realpow)
  show "101 * (real k * ln 1024) \<le> 100 * ln n"
    unfolding b using lo by simp
  have "ln (n ^ 10) \<le> ln ((2::real) ^ (99 * (k + 1)))"
    using assms(1,3) by (subst ln_le_cancel_iff) simp_all
  then have hi: "10 * ln n \<le> 99 * (real k + 1) * ln 2"
    using assms(1) by (simp add: ln_realpow algebra_simps)
  have "0 \<le> (real k + 1) * ln 2" using l2 by simp
  then have "1010 * ln n \<le> 10000 * ((real k + 1) * ln 2)" using hi by linarith
  then show "101 * ln n \<le> 100 * ((real k + 1) * ln 1024)"
    unfolding b by simp
qed

lemma exponent_insensitive_to_rounding:
  fixes Math_log rnd :: "real \<Rightarrow> real"
  assumes L: "\<And>x. 1 \<le> x \<Longrightarrow> \<bar>Math_log x - ln x\<bar> \<le> \<bar>ln x\<bar> / 2 ^ 40"
    and R: "\<And>y. \<bar>rnd y - y\<bar> \<le> \<bar>y\<bar> / 2 ^ 40"
    and one: "rnd 1 = 1"
  shows "\<lfloor>rnd (Math_log 1024 / Math_log 1024)\<rfloor> = 1"
    and "\<lfloor>rnd (Math_log 1536 / Math_log 1024)\<rfloor> = 1"
    and "\<lfloor>rnd (Math_log 1234567 / Math_log 1024)\<rfloor> = 2"
    and "\<lfloor>rnd (Math_log (2 * 1024 ^ 9) / Math_log 1024)\<rfloor> = 9"
proof -
  have "999 * ln 1024 \<le> 1000 * Math_log 1024"
    using relative_error_bounds(1) [of "Math_log 1024" "ln 1024"] L [of 1024] by simp
  moreover have "(0::real) < ln 1024" by simp
  ultimately have "Math_log 1024 \<noteq> 0" by linarith
  then show "\<lfloor>rnd (Math_log 1024 / Math_log 1024)\<rfloor> = 1" by (simp add: one)
  have "(2::real) ^ (101 * 1) \<le> 1536 ^ 10" "(1536::real) ^ 10 \<le> 2 ^ (99 * (1 + 1))"
    by simp_all
  from ln_power_bounds [OF _ this]
  have "\<lfloor>rnd (Math_log 1536 / Math_log 1024)\<rfloor> = int 1"
    by (intro floor_ratio_rounded [OF L R]) simp_all
  then show "\<lfloor>rnd (Math_log 1536 / Math_log 1024)\<rfloor> = 1" by simp
  have "(2::real) ^ (101 * 2) \<le> 1234567 ^ 10" "(1234567::real) ^ 10 \<le> 2 ^ (99 * (2 + 1))"
    by simp_all
  from ln_power_bounds [OF _ this]
  have "\<lfloor>rnd (Math_log 1234567 / Math_log 1024)\<rfloor> = int 2"
    by (intro floor_ratio_rounded [OF L R]) simp_all
  then show "\<lfloor>rnd (Math_log 1234567 / Math_log 1024)\<rfloor> = 2" by simp
  have "(2::real) ^ (101 * 9) \<le> (2 * 1024 ^ 9) ^ 10"
    "(2 * 1024 ^ 9 :: real) ^ 10 \<le> 2 ^ (99 * (9 + 1))"
    by simp_all
  from ln_power_bounds [OF _ this]
  have "\<lfloor>rnd (Math_log (2 * 1024 ^ 9) / Math_log 1024)\<rfloor> = int 9"
    by (intro floor_ratio_rounded [OF L R]) simp_all
  then show "\<lfloor>rnd (Math_log (2 * 1024 ^ 9) / Math_log 1024)\<rfloor> = 9" by simp
qed

lemma exponent_insensitive_to_rounding_exact:
  "\<lfloor>ln 1536 / ln (1024::real)\<rfloor> = 1"
  using exponent_insensitive_to_rounding(2) [of ln "\<lambda>y. y"] by simp

lemma digits_of_values:
  "digits_of 100 = ''100''" "digits_of 150 = ''150''" "digits_of 118 = ''118''"
  "digits_of 200 = ''200''"
  by code_simp+

lemma toFixed_values:
  "toFixed (1024 / 1024 ^ 1) 2 = ''1.00''"
  "toFixed (1536 / 1024 ^ 1) 2 = ''1.50''"
  "toFixed (1234567 / 1024 ^ 2) 2 = ''1.18''"
  "toFixed ((2 * 1024 ^ 9) / 1024 ^ 9) 2 = ''2.00''"
  by (simp_all add: toFixed_def digits_of_values Let_def)

lemma parseFloat_string_values:
  "parseFloat_string ''1.00'' = ''1''"
  "parseFloat_string ''1.50'' = ''1.5''"
  "parseFloat_string ''1.18'' = ''1.18''"
  "parseFloat_string ''2.00'' = ''2''"
  by (simp_all add: parseFloat_string_def)

lemma BYTE_SIZES_values:
  "template_string (at_number BYTE_SIZES 0) = ''B''"
  "template_string (at_number BYTE_SIZES (int 1)) = ''KB''"
  "template_string (at_number BYTE_SIZES (int 2)) = ''MB''"
  "template_string (at_number BYTE_SIZES (int 9)) = ''undefined''"
  by (simp_all add: BYTE_SIZES_def at_number_def template_string_def)

text \<open>
  C8. With the default precision of 2 decimals \<open>formatBytes\<close> returns \<open>"0 B"\<close> for 0,
  \<open>"1 KB"\<close> for 1024, \<open>"1.5 KB"\<close> for 1536 and \<open>"1.18 MB"\<close> for 1234567: the value is
  scaled by \<open>1024^exponent\<close>, rounded to the decimals, and printed without the zeros at
  the end.
\<close>

theorem formatBytes_scenarios:
  "formatBytes 0 2 = Inr ''0 B'' \<and> formatBytes 1024 2 = Inr ''1 KB''
   \<and> formatBytes 1536 2 = Inr ''1.5 KB'' \<and> formatBytes 1234567 2 = Inr ''1.18 MB''"
proof -
  have "formatBytes 0 2 = Inr ''0 B''"
    by (simp add: formatBytes_def BYTE_SIZES_values)
  moreover have "formatBytes 1024 2 = Inr ''1 KB''"
    using formatBytes_eq [of 1 1024 2]
    by (simp add: toFixed_values [simplified] parseFloat_string_values BYTE_SIZES_values [simplified])
  moreover have "formatBytes 1536 2 = Inr ''1.5 KB''"
    using formatBytes_eq [of 1 1536 2]
    by (simp add: toFixed_values [simplified] parseFloat_string_values BYTE_SIZES_values [simplified])
  moreover have "formatBytes 1234567 2 = Inr ''1.18 MB''"
    using formatBytes_eq [of 2 1234567 2]
    by (simp add: toFixed_values [simplified] parseFloat_string_values BYTE_SIZES_values [simplified])
  ultimately show ?thesis by simp
qed

text \<open>
  C9. For every positive byte count the exponent is clamped to the unit table, so that
  the string always ends with one of the suffixes \<open>B\<close> to \<open>YB\<close>, also from \<open>1024^9\<close> on.
  The source reads \<open>BYTE_SIZES[exponent]\<close> with no clamp: for \<open>2 * 1024^9\<close> bytes the
  exponent is 9, the table ends at the index 8, and the string ends with \<open>undefined\<close>.
\<close>

theorem formatBytes_unit_out_of_bounds:
  "formatBytes (2 * 1024 ^ 9) 2 = Inr ''2 undefined''
   \<and> at_number BYTE_SIZES \<lfloor>ln (real (2 * 1024 ^ 9)) / ln (real SIZE_BASE)\<rfloor> = None"
proof -
  have "formatBytes (2 * 1024 ^ 9) 2 = Inr ''2 undefined''"
    using formatBytes_eq [of 9 "2 * 1024 ^ 9" 2]
    by (simp add: toFixed_values [simplified] parseFloat_string_values BYTE_SIZES_values [simplified])
  moreover have "\<lfloor>ln (real (2 * 1024 ^ 9)) / ln (real SIZE_BASE)\<rfloor> = 9"
    using exponent_eq [of 9 "2 * 1024 ^ 9"] by (simp add: SIZE_BASE_def)
  ultimately show ?thesis by (simp add: at_number_def BYTE_SIZES_def)
qed

end
